theory Spec2Isabelle
  imports Complex_Main
begin

section \<open>Tube feeder firmware: the motion controller of tube\_feeder.ino\<close>

text \<open>
  The sketch is modelled by explicit state passing. Its global variables are the fields
  of the record \<open>feeder\<close>; the serial port, the output pins and the activation record of
  a running \<open>feedDistance\<close> call are further fields, so that every function of the sketch
  is a function from \<open>feeder\<close> to \<open>feeder\<close>.

  Numbers. The C type \<open>float\<close> is modelled by \<open>real\<close>: arithmetic on positions, speeds
  and distances is exact, there is no rounding, no NaN and no infinity. A statement of
  this theory about a position therefore holds of the firmware up to the rounding of
  binary32 arithmetic. The integer variables are modelled by \<open>int\<close> and \<open>nat\<close>; the
  only place where a value can leave the range of its C type is a cast from \<open>float\<close>,
  and the casts are written out with that range. A quotient by zero is 0 in HOL and
  an infinity in binary32: the theorems about a quotient by \<open>stepsPerMm\<close> assume that
  \<open>stepsPerMm\<close> is not zero.

  Library. \<open>String::toFloat\<close> and \<open>String::toInt\<close> belong to the Arduino core, not to
  the sketch; they are parameters of the model (record \<open>lib\<close>). \<open>String::trim\<close>,
  \<open>String::toUpperCase\<close> and \<open>Stream::readStringUntil\<close> are written out.

  Time. \<open>delayMicroseconds\<close> has no effect on the state. What the passing of time brings
  is serial input: the field \<open>incoming\<close> lists the bytes that reach the receive buffer
  during the successive step intervals of a blocking feed, one chunk per interval.
  The receive buffer \<open>rx\<close> is not bounded (the hardware buffer holds 64 bytes and drops
  what does not fit).
\<close>

subsection \<open>Constants\<close>

definition HIGH :: int where "HIGH = 1"
definition LOW :: int where "LOW = 0"
definition DIR_FORWARD :: int where "DIR_FORWARD = HIGH"
definition DIR_REVERSE :: int where "DIR_REVERSE = LOW"

definition newline :: char where "newline = CHR 0x0A"
definition carriageReturn :: char where "carriageReturn = CHR 0x0D"

subsection \<open>Serial output\<close>

text \<open>
  One constructor per line the sketch prints. A number printed with \<open>Serial.print\<close> is
  kept as the number (the core renders it with two decimals). \<open>STATUS\<close> stands for the
  eight lines of \<open>reportStatus\<close> and carries position, speed, steps per mm, running flag,
  jog flag and LED state.
\<close>

datatype line =
    TUBE_FEEDER_READY
  | COMMANDS_BANNER
  | OK_STOPPED
  | ERR_BUSY
  | ERR_INVALID_DISTANCE
  | OK_SPEED real
  | ERR_SPEED_RANGE real
  | ERR_USE_J
  | OK_HOME
  | POS real
  | ERR_LED_RANGE
  | ERR_UNKNOWN_CMD
  | FEEDING real
  | OK_STOPPED_EARLY
  | OK_DONE
  | JOGGING_FORWARD
  | JOGGING_REVERSE
  | STATUS real real real bool bool int

subsection \<open>State\<close>

record feeder =
  stepsPerMm :: real
  maxSpeedMmSec :: real
  isRunning :: bool
  stopRequested :: bool
  jogMode :: bool
  jogDirection :: int
  ledState :: int
  currentPositionMm :: real
  targetSpeedMmSec :: real
  stepDelayUs :: nat
  inputBuffer :: string
  rx :: string
  incoming :: "string list"
  tx :: "line list"
  pinDir :: int
  stepPulses :: nat
  ledPwm :: nat
  feed :: "(int \<times> int \<times> int) option"

text \<open>
  \<open>rx\<close> is the receive buffer of the serial port, \<open>tx\<close> the lines printed so far,
  \<open>pinDir\<close> the level of the direction pin, \<open>stepPulses\<close> the number of pulses emitted on
  the step pin, \<open>ledPwm\<close> the duty written to the LED pin. \<open>feed\<close> is \<open>Some (direction,
  totalSteps, stepsCompleted)\<close> exactly while a call of \<open>feedDistance\<close> is in progress.
\<close>

record lib =
  toFloat :: "string \<Rightarrow> real"
  toInt :: "string \<Rightarrow> int"

definition println :: "line \<Rightarrow> feeder \<Rightarrow> feeder" where
  "println l s = s\<lparr>tx := tx s @ [l]\<rparr>"

subsection \<open>Strings and casts\<close>

definition isSpace :: "char \<Rightarrow> bool" where
  "isSpace c = (c = CHR '' '' \<or> c = CHR 0x09 \<or> c = CHR 0x0A \<or> c = CHR 0x0B
                \<or> c = CHR 0x0C \<or> c = CHR 0x0D)"

definition trim :: "string \<Rightarrow> string" where
  "trim str = rev (dropWhile isSpace (rev (dropWhile isSpace str)))"

definition toUpper :: "char \<Rightarrow> char" where
  "toUpper c =
     (case map_of (zip ''abcdefghijklmnopqrstuvwxyz'' ''ABCDEFGHIJKLMNOPQRSTUVWXYZ'') c of
        None \<Rightarrow> c | Some u \<Rightarrow> u)"

definition toUpperCase :: "string \<Rightarrow> string" where
  "toUpperCase str = map toUpper str"

text \<open>
  \<open>readStringUntil t\<close> returns the bytes before the first \<open>t\<close> and removes them and that
  \<open>t\<close> from the buffer; without a \<open>t\<close> in the buffer it times out and returns the whole
  buffer.
\<close>

definition readStringUntil :: "char \<Rightarrow> string \<Rightarrow> string \<times> string" where
  "readStringUntil t buf =
     (takeWhile (\<lambda>c. c \<noteq> t) buf, drop 1 (dropWhile (\<lambda>c. c \<noteq> t) buf))"

text \<open>
  The casts of the sketch. \<open>truncZero\<close> drops the fraction, toward zero. A value in the
  range of the target type is converted to itself. Outside that range C leaves the
  result of a cast from \<open>float\<close> undefined; the model reduces modulo the width of the type,
  and no theorem below uses more of that choice than that the result is a number of the
  target type. \<open>long\<close> and \<open>unsigned long\<close> have 32 bits on the AVR, \<open>int\<close> has 16.
\<close>

definition truncZero :: "real \<Rightarrow> int" where
  "truncZero x = (if x < 0 then \<lceil>x\<rceil> else \<lfloor>x\<rfloor>)"

definition castLong :: "real \<Rightarrow> int" where
  "castLong x = (truncZero x + 2 ^ 31) mod 2 ^ 32 - 2 ^ 31"

definition castULong :: "real \<Rightarrow> nat" where
  "castULong x = nat (truncZero x mod 2 ^ 32)"

text \<open>The conversion of the \<open>long\<close> returned by \<open>toInt\<close> to \<open>int\<close>.\<close>

definition castInt :: "int \<Rightarrow> int" where
  "castInt n = (n + 2 ^ 15) mod 2 ^ 16 - 2 ^ 15"

subsection \<open>Motion primitives\<close>

definition doStep :: "int \<Rightarrow> feeder \<Rightarrow> feeder" where
  "doStep direction s =
     (let s1 = s\<lparr>stepPulses := stepPulses s + 1\<rparr>;
          stepMm = 1 / stepsPerMm s1
      in if direction = DIR_FORWARD
         then s1\<lparr>currentPositionMm := currentPositionMm s1 + stepMm\<rparr>
         else s1\<lparr>currentPositionMm := currentPositionMm s1 - stepMm\<rparr>)"

definition updateStepDelay :: "feeder \<Rightarrow> feeder" where
  "updateStepDelay s =
     (let stepsPerSec = targetSpeedMmSec s * stepsPerMm s;
          s1 = s\<lparr>stepDelayUs := castULong (1000000 / stepsPerSec)\<rparr>
      in if stepDelayUs s1 < 100 then s1\<lparr>stepDelayUs := 100\<rparr> else s1)"

definition stopMotion :: "feeder \<Rightarrow> feeder" where
  "stopMotion s = s\<lparr>stopRequested := True, jogMode := False, isRunning := False\<rparr>"

definition startJog :: "int \<Rightarrow> feeder \<Rightarrow> feeder" where
  "startJog direction s =
     println (if direction = DIR_FORWARD then JOGGING_FORWARD else JOGGING_REVERSE)
       (s\<lparr>jogMode := True, jogDirection := direction, isRunning := True,
          stopRequested := False, pinDir := direction\<rparr>)"

definition setLED :: "int \<Rightarrow> feeder \<Rightarrow> feeder" where
  "setLED state s =
     (let s1 = s\<lparr>ledState := state\<rparr>
      in if state = 0 then s1\<lparr>ledPwm := 0\<rparr>
         else if state = 1 then s1\<lparr>ledPwm := 30\<rparr>
         else if state = 2 then s1\<lparr>ledPwm := 255\<rparr>
         else if state = 3 then s1\<lparr>ledPwm := 150\<rparr>
         else s1)"

definition reportStatus :: "feeder \<Rightarrow> feeder" where
  "reportStatus s =
     println (STATUS (currentPositionMm s) (targetSpeedMmSec s) (stepsPerMm s)
                (isRunning s) (jogMode s) (ledState s)) s"

subsection \<open>feedDistance\<close>

text \<open>
  The function is split at its loop: \<open>feedEnter\<close> is the code before the loop,
  \<open>feedBody\<close> one pass through the loop body, \<open>feedExit\<close> the code after it.
  \<open>arrive\<close> moves the bytes that come in during one step interval into the receive
  buffer; \<open>checkStop\<close> is the block guarded by \<open>Serial.available()\<close>.
\<close>

definition feedEnter :: "real \<Rightarrow> int \<Rightarrow> feeder \<Rightarrow> feeder" where
  "feedEnter mm direction s =
     println (FEEDING mm)
       (s\<lparr>isRunning := True, stopRequested := False, jogMode := False,
          pinDir := direction,
          feed := Some (direction, castLong (mm * stepsPerMm s), 0)\<rparr>)"

definition arrive :: "feeder \<Rightarrow> feeder" where
  "arrive s =
     (case incoming s of
        [] \<Rightarrow> s
      | b # bs \<Rightarrow> s\<lparr>rx := rx s @ b, incoming := bs\<rparr>)"

definition checkStop :: "feeder \<Rightarrow> feeder" where
  "checkStop s =
     (case rx s of
        [] \<Rightarrow> s
      | c # _ \<Rightarrow>
          if c = CHR ''S'' \<or> c = CHR ''s'' then
            (let (check, rest) = readStringUntil newline (rx s);
                 s1 = s\<lparr>rx := rest\<rparr>
             in if toUpperCase (trim check) = ''STOP''
                then s1\<lparr>stopRequested := True\<rparr> else s1)
          else s)"

definition feedBody :: "feeder \<Rightarrow> feeder" where
  "feedBody s =
     (case feed s of
        None \<Rightarrow> s
      | Some (direction, totalSteps, stepsCompleted) \<Rightarrow>
          checkStop (arrive
            ((doStep direction s)\<lparr>feed := Some (direction, totalSteps, stepsCompleted + 1)\<rparr>)))"

definition feedExit :: "feeder \<Rightarrow> feeder" where
  "feedExit s =
     (case feed s of
        None \<Rightarrow> s
      | Some (direction, totalSteps, stepsCompleted) \<Rightarrow>
          (let actualMm = real_of_int stepsCompleted / stepsPerMm s;
               s1 = (if direction = DIR_FORWARD
                     then s\<lparr>currentPositionMm := currentPositionMm s + actualMm\<rparr>
                     else s\<lparr>currentPositionMm := currentPositionMm s - actualMm\<rparr>);
               s2 = s1\<lparr>isRunning := False, feed := None\<rparr>
           in if stopRequested s2 then println OK_STOPPED_EARLY s2 else println OK_DONE s2))"

definition feedRemaining :: "feeder \<Rightarrow> nat" where
  "feedRemaining s =
     (case feed s of None \<Rightarrow> 0 | Some (direction, totalSteps, stepsCompleted) \<Rightarrow>
        nat (totalSteps - stepsCompleted))"

definition feedContinues :: "feeder \<Rightarrow> bool" where
  "feedContinues s =
     (case feed s of None \<Rightarrow> False | Some (direction, totalSteps, stepsCompleted) \<Rightarrow>
        stepsCompleted < totalSteps \<and> \<not> stopRequested s)"

function feedLoop :: "feeder \<Rightarrow> feeder" where
  "feedLoop s = (if feedContinues s then feedLoop (feedBody s) else s)"
  by pat_completeness auto
termination
proof (relation "measure feedRemaining")
  show "wf (measure feedRemaining)" by simp
next
  fix s
  assume c: "feedContinues s"
  have "feed (checkStop t) = feed t" for t
    by (simp add: checkStop_def Let_def split: list.splits prod.splits)
  moreover have "feed (arrive t) = feed t" for t
    by (simp add: arrive_def split: list.splits)
  ultimately have "feedRemaining (feedBody s) < feedRemaining s"
    using c
    by (auto simp: feedContinues_def feedRemaining_def feedBody_def split: option.splits)
  then show "(feedBody s, s) \<in> measure feedRemaining" by simp
qed

declare feedLoop.simps [simp del]

definition feedDistance :: "real \<Rightarrow> int \<Rightarrow> feeder \<Rightarrow> feeder" where
  "feedDistance mm direction s = feedExit (feedLoop (feedEnter mm direction s))"

subsection \<open>processCommand\<close>

definition processCommand :: "lib \<Rightarrow> string \<Rightarrow> feeder \<Rightarrow> feeder" where
  "processCommand l cmd0 s =
     (let cmd = toUpperCase (trim cmd0) in
      case cmd of
        [] \<Rightarrow> s
      | firstChar # rest \<Rightarrow>
          if cmd = ''STOP'' then println OK_STOPPED (stopMotion s)
          else if isRunning s \<and> firstChar \<noteq> CHR ''?'' then println ERR_BUSY s
          else if firstChar = CHR ''F'' then
            (let mm = toFloat l rest
             in if mm > 0 then feedDistance mm DIR_FORWARD s
                else println ERR_INVALID_DISTANCE s)
          else if firstChar = CHR ''R'' then
            (let mm = toFloat l rest
             in if mm > 0 then feedDistance mm DIR_REVERSE s
                else println ERR_INVALID_DISTANCE s)
          else if firstChar = CHR ''S'' then
            (let speed = toFloat l rest
             in if speed > 0 \<and> speed \<le> maxSpeedMmSec s
                then (let s1 = updateStepDelay (s\<lparr>targetSpeedMmSec := speed\<rparr>)
                      in println (OK_SPEED (targetSpeedMmSec s1)) s1)
                else println (ERR_SPEED_RANGE (maxSpeedMmSec s)) s)
          else if firstChar = CHR ''J'' then
            (case rest of
               [] \<Rightarrow> s
             | dir # _ \<Rightarrow>
                 if dir = CHR ''+'' then startJog DIR_FORWARD s
                 else if dir = CHR ''-'' then startJog DIR_REVERSE s
                 else println ERR_USE_J s)
          else if firstChar = CHR ''H'' then
            (if cmd = ''HOME'' then println OK_HOME (s\<lparr>currentPositionMm := 0\<rparr>) else s)
          else if firstChar = CHR ''P'' then
            (if cmd = ''POS'' then println (POS (currentPositionMm s)) s else s)
          else if firstChar = CHR ''?'' then reportStatus s
          else if firstChar = CHR ''L'' then
            (case rest of
               [] \<Rightarrow> s
             | _ # _ \<Rightarrow>
                 (let state = castInt (toInt l rest)
                  in if state \<ge> 0 \<and> state \<le> 3 then setLED state s
                     else println ERR_LED_RANGE s))
          else println ERR_UNKNOWN_CMD s)"

subsection \<open>loop and setup\<close>

text \<open>
  \<open>drainStep\<close> is one pass through the \<open>while (Serial.available())\<close> loop of \<open>loop\<close>,
  \<open>serialDrain\<close> the whole loop. It ends because every pass takes one byte from the
  receive buffer and no command adds a byte that was not already on its way
  (\<open>pendingBytes\<close>).
\<close>

definition drainStep :: "lib \<Rightarrow> feeder \<Rightarrow> feeder" where
  "drainStep l s =
     (case rx s of
        [] \<Rightarrow> s
      | c # cs \<Rightarrow>
          (let s1 = s\<lparr>rx := cs\<rparr>
           in if c = newline \<or> c = carriageReturn then
                (if length (inputBuffer s1) > 0
                 then (processCommand l (inputBuffer s1) s1)\<lparr>inputBuffer := []\<rparr>
                 else s1)
              else s1\<lparr>inputBuffer := inputBuffer s1 @ [c]\<rparr>))"

definition pendingBytes :: "feeder \<Rightarrow> nat" where
  "pendingBytes s = length (rx s) + length (concat (incoming s))"

function serialDrain :: "lib \<Rightarrow> feeder \<Rightarrow> feeder" where
  "serialDrain l s = (if rx s \<noteq> [] then serialDrain l (drainStep l s) else s)"
  by pat_completeness auto
termination
proof (relation "measure (\<lambda>(l, s). pendingBytes s)")
  show "wf (measure (\<lambda>(l, s). pendingBytes s))" by simp
next
  fix l :: lib and s :: feeder
  assume ne: "rx s \<noteq> []"
  have rd: "length (snd (readStringUntil newline b)) \<le> length b" for b
    by (simp add: readStringUntil_def) (metis length_dropWhile_le diff_le_self le_trans)
  have chk: "pendingBytes (checkStop t) \<le> pendingBytes t" for t
    using rd [of "rx t"]
    by (auto simp: checkStop_def pendingBytes_def Let_def split: list.splits prod.splits)
  have arr: "pendingBytes (arrive t) = pendingBytes t" for t
    by (simp add: arrive_def pendingBytes_def split: list.splits)
  have stp: "pendingBytes (doStep d t) = pendingBytes t" for d t
    by (simp add: doStep_def pendingBytes_def Let_def)
  have upd: "pendingBytes (t\<lparr>feed := f\<rparr>) = pendingBytes t" for f t
    by (simp add: pendingBytes_def)
  have body: "pendingBytes (feedBody t) \<le> pendingBytes t" for t
    using chk [of "arrive ((doStep d t)\<lparr>feed := f\<rparr>)" for d f]
    by (auto simp: feedBody_def arr stp upd split: option.splits)
  have lp: "pendingBytes (feedLoop t) \<le> pendingBytes t" for t
  proof (induction t rule: feedLoop.induct)
    case (1 t)
    show ?case
    proof (cases "feedContinues t")
      case True
      then have "pendingBytes (feedLoop t) = pendingBytes (feedLoop (feedBody t))"
        by (subst feedLoop.simps) simp
      also have "\<dots> \<le> pendingBytes (feedBody t)" using "1" True by simp
      also have "\<dots> \<le> pendingBytes t" by (rule body)
      finally show ?thesis .
    next
      case False
      then show ?thesis by (subst feedLoop.simps) simp
    qed
  qed
  have fd: "pendingBytes (feedDistance mm d t) \<le> pendingBytes t" for mm d t
  proof -
    have "pendingBytes (feedExit u) = pendingBytes u" for u
      by (simp add: feedExit_def pendingBytes_def println_def Let_def split: option.splits prod.splits)
    moreover have "pendingBytes (feedEnter mm d t) = pendingBytes t"
      by (simp add: feedEnter_def pendingBytes_def println_def)
    ultimately show ?thesis
      using lp [of "feedEnter mm d t"] by (simp add: feedDistance_def)
  qed
  have pc: "pendingBytes (processCommand l c t) \<le> pendingBytes t" for c t
    using fd [of _ _ t]
    by (auto simp: processCommand_def Let_def println_def stopMotion_def startJog_def
          updateStepDelay_def setLED_def reportStatus_def pendingBytes_def
          split: list.splits)
  have "pendingBytes (drainStep l s) < pendingBytes s"
  proof (cases "rx s")
    case Nil
    with ne show ?thesis by simp
  next
    case (Cons c cs)
    have "pendingBytes (processCommand l b (s\<lparr>rx := cs\<rparr>)) \<le> pendingBytes (s\<lparr>rx := cs\<rparr>)" for b
      by (rule pc)
    moreover have "pendingBytes (s\<lparr>rx := cs\<rparr>) < pendingBytes s"
      using Cons by (simp add: pendingBytes_def)
    moreover have "pendingBytes (u\<lparr>inputBuffer := b\<rparr>) = pendingBytes u" for u b
      by (simp add: pendingBytes_def)
    ultimately show ?thesis
      using Cons by (auto simp: drainStep_def Let_def intro: le_less_trans)
  qed
  then show "((l, drainStep l s), (l, s)) \<in> measure (\<lambda>(l, s). pendingBytes s)" by simp
qed

declare serialDrain.simps [simp del]

definition loop :: "lib \<Rightarrow> feeder \<Rightarrow> feeder" where
  "loop l s =
     (let s1 = serialDrain l s
      in if jogMode s1 \<and> \<not> stopRequested s1 then doStep (jogDirection s1) s1 else s1)"

text \<open>The initial values of the global variables, and the function \<open>setup\<close> of the sketch.\<close>

definition powerOn :: feeder where
  "powerOn =
     \<lparr>stepsPerMm = 17.62, maxSpeedMmSec = 50, isRunning = False, stopRequested = False,
      jogMode = False, jogDirection = DIR_FORWARD, ledState = 0, currentPositionMm = 0,
      targetSpeedMmSec = 10, stepDelayUs = 1000, inputBuffer = [], rx = [], incoming = [],
      tx = [], pinDir = LOW, stepPulses = 0, ledPwm = 0, feed = None\<rparr>"

definition setupSketch :: "feeder \<Rightarrow> feeder" where
  "setupSketch s =
     println COMMANDS_BANNER (println TUBE_FEEDER_READY
       (updateStepDelay (s\<lparr>pinDir := DIR_FORWARD, ledPwm := 0\<rparr>)))"

subsection \<open>Reachable states\<close>

text \<open>
  The states the controller passes through, at the granularity of one received byte and
  one motor step: the state after \<open>setup\<close>; the host writing to the serial line (now, or
  during the step intervals of a later feed); one pass of the receive loop, which runs a
  whole command when the byte ends a line; one jog step; the entry of \<open>feedDistance\<close>
  from the \<open>F\<close> and \<open>R\<close> branches of \<open>processCommand\<close>; one pass of the feed loop.
\<close>

inductive reach :: "lib \<Rightarrow> feeder \<Rightarrow> bool" for l :: lib where
  boot: "reach l (setupSketch powerOn)"
| host: "reach l s \<Longrightarrow> reach l (s\<lparr>rx := rx s @ now, incoming := incoming s @ later\<rparr>)"
| drain: "reach l s \<Longrightarrow> feed s = None \<Longrightarrow> rx s \<noteq> [] \<Longrightarrow> reach l (drainStep l s)"
| jog: "reach l s \<Longrightarrow> feed s = None \<Longrightarrow> jogMode s \<Longrightarrow> \<not> stopRequested s \<Longrightarrow>
        reach l (doStep (jogDirection s) s)"
| feed_start:
    "reach l s \<Longrightarrow> feed s = None \<Longrightarrow> rx s = c # cs \<Longrightarrow>
     c = newline \<or> c = carriageReturn \<Longrightarrow>
     toUpperCase (trim (inputBuffer s)) = f # arg \<Longrightarrow>
     f = CHR ''F'' \<or> f = CHR ''R'' \<Longrightarrow> \<not> isRunning s \<Longrightarrow> toFloat l arg > 0 \<Longrightarrow>
     reach l (feedEnter (toFloat l arg)
                (if f = CHR ''F'' then DIR_FORWARD else DIR_REVERSE) (s\<lparr>rx := cs\<rparr>))"
| feed_step: "reach l s \<Longrightarrow> feedContinues s \<Longrightarrow> reach l (feedBody s)"

definition Feeding :: "feeder \<Rightarrow> bool" where
  "Feeding s = (feed s \<noteq> None)"

definition Jogging :: "feeder \<Rightarrow> bool" where
  "Jogging s = jogMode s"

subsection \<open>A library instance for the examples\<close>

text \<open>
  The theorems hold for every \<open>toFloat\<close> and \<open>toInt\<close>. The examples need one:
  \<open>decimalLib\<close> reads an unsigned decimal literal, digits with an optional fraction after
  a point, from the start of a string and returns 0 when the string starts with neither.
  On such strings this is the value the core's \<open>toFloat\<close> returns, and on strings of
  digits the value of \<open>toInt\<close>. The examples apply it to such strings only.
\<close>

definition digitValue :: "char \<Rightarrow> nat option" where
  "digitValue c = map_of (zip ''0123456789'' [0, 1, 2, 3, 4, 5, 6, 7, 8, 9]) c"

fun leadingDigits :: "nat \<Rightarrow> string \<Rightarrow> nat \<times> string" where
  "leadingDigits acc [] = (acc, [])"
| "leadingDigits acc (c # cs) =
     (case digitValue c of None \<Rightarrow> (acc, c # cs) | Some d \<Rightarrow> leadingDigits (10 * acc + d) cs)"

fun fractionDigits :: "real \<Rightarrow> real \<Rightarrow> string \<Rightarrow> real" where
  "fractionDigits acc weight [] = acc"
| "fractionDigits acc weight (c # cs) =
     (case digitValue c of
        None \<Rightarrow> acc
      | Some d \<Rightarrow> fractionDigits (acc + real d * weight / 10) (weight / 10) cs)"

definition decimalFloat :: "string \<Rightarrow> real" where
  "decimalFloat str =
     (case leadingDigits 0 str of
        (n, CHR ''.'' # digits) \<Rightarrow> real n + fractionDigits 0 1 digits
      | (n, _) \<Rightarrow> real n)"

definition decimalLib :: lib where
  "decimalLib =
     \<lparr>toFloat = decimalFloat, toInt = (\<lambda>str. int (fst (leadingDigits 0 str)))\<rparr>"

text \<open>The sign of a direction: forward counts up, anything else counts down.\<close>

definition dirSign :: "int \<Rightarrow> real" where
  "dirSign direction = (if direction = DIR_FORWARD then 1 else - 1)"

text \<open>The controller after power-up, before any input.\<close>

definition booted :: feeder where
  "booted = setupSketch powerOn"

text \<open>
  \<open>unmoved s t\<close>: the two states agree on everything but the position, the pulse
  count, the stop request, the serial input and the activation record of the feed.
\<close>

definition unmoved :: "feeder \<Rightarrow> feeder \<Rightarrow> bool" where
  "unmoved s t =
     (stepsPerMm t = stepsPerMm s \<and> maxSpeedMmSec t = maxSpeedMmSec s \<and>
      isRunning t = isRunning s \<and> jogMode t = jogMode s \<and>
      jogDirection t = jogDirection s \<and> ledState t = ledState s \<and>
      targetSpeedMmSec t = targetSpeedMmSec s \<and> stepDelayUs t = stepDelayUs s \<and>
      inputBuffer t = inputBuffer s \<and> tx t = tx s \<and> pinDir t = pinDir s \<and>
      ledPwm t = ledPwm s)"

text \<open>
  The invariant of the reachable states. At the command loop (\<open>idleInv\<close>, no feed in
  progress) the controller is running exactly when it is jogging; inside a feed it is
  running and not jogging; the step delay is at least 100 microseconds.
\<close>

definition idleInv :: "feeder \<Rightarrow> bool" where
  "idleInv s = (feed s = None \<and> isRunning s = jogMode s \<and> 100 \<le> stepDelayUs s)"

definition reachInv :: "feeder \<Rightarrow> bool" where
  "reachInv s =
     ((case feed s of None \<Rightarrow> isRunning s = jogMode s | Some f \<Rightarrow> isRunning s \<and> \<not> jogMode s)
      \<and> 100 \<le> stepDelayUs s)"

section \<open>Basic facts\<close>

lemmas dir_defs = DIR_FORWARD_def DIR_REVERSE_def HIGH_def LOW_def

lemma booted_eq:
  "booted = powerOn\<lparr>pinDir := 1, stepDelayUs := 5675,
                     tx := [TUBE_FEEDER_READY, COMMANDS_BANNER]\<rparr>"
  by (simp add: booted_def setupSketch_def powerOn_def updateStepDelay_def println_def
        castULong_def truncZero_def dir_defs Let_def)

lemmas eval_defs = processCommand_def trim_def toUpperCase_def toUpper_def isSpace_def
  feedDistance_def feedEnter_def feedExit_def feedBody_def feedContinues_def checkStop_def
  arrive_def doStep_def println_def castLong_def dir_defs Let_def readStringUntil_def
  newline_def carriageReturn_def decimalLib_def decimalFloat_def digitValue_def truncZero_def
  drainStep_def loop_def
  startJog_def stopMotion_def dirSign_def booted_eq powerOn_def

subsection \<open>Casts within their range\<close>




subsection \<open>What one feed does\<close>

lemma unmoved_refl [simp]: "unmoved s s"
  by (simp add: unmoved_def)

lemma unmoved_trans: "unmoved s t \<Longrightarrow> unmoved t u \<Longrightarrow> unmoved s u"
  by (simp add: unmoved_def)

lemma checkStop_unmoved: "unmoved s (checkStop s)"
  by (simp add: unmoved_def checkStop_def Let_def split: list.splits prod.splits)

lemma checkStop_motion:
  "feed (checkStop s) = feed s" "stepPulses (checkStop s) = stepPulses s"
  "currentPositionMm (checkStop s) = currentPositionMm s"
  by (simp_all add: checkStop_def Let_def split: list.splits prod.splits)

lemma arrive_unmoved: "unmoved s (arrive s)"
  by (simp add: unmoved_def arrive_def split: list.splits)

lemma arrive_motion:
  "feed (arrive s) = feed s" "stepPulses (arrive s) = stepPulses s"
  "currentPositionMm (arrive s) = currentPositionMm s"
  "stopRequested (arrive s) = stopRequested s"
  by (simp_all add: arrive_def split: list.splits)

lemma doStep_unmoved: "unmoved s (doStep d s)"
  by (simp add: unmoved_def doStep_def Let_def)

lemma doStep_motion:
  "feed (doStep d s) = feed s" "stepPulses (doStep d s) = stepPulses s + 1"
  "currentPositionMm (doStep d s) = currentPositionMm s + dirSign d / stepsPerMm s"
  "stopRequested (doStep d s) = stopRequested s"
  "rx (doStep d s) = rx s" "incoming (doStep d s) = incoming s"
  by (simp_all add: doStep_def dirSign_def Let_def)

lemma feedBody_step:
  assumes "feed s = Some (d, tot, k)"
  shows "feed (feedBody s) = Some (d, tot, k + 1)"
    and "stepPulses (feedBody s) = stepPulses s + 1"
    and "currentPositionMm (feedBody s) = currentPositionMm s + dirSign d / stepsPerMm s"
    and "unmoved s (feedBody s)"
proof -
  let ?a = "(doStep d s)\<lparr>feed := Some (d, tot, k + 1)\<rparr>"
  have b: "feedBody s = checkStop (arrive ?a)"
    using assms by (simp add: feedBody_def)
  show "feed (feedBody s) = Some (d, tot, k + 1)"
    by (simp add: b checkStop_motion arrive_motion)
  show "stepPulses (feedBody s) = stepPulses s + 1"
    by (simp add: b checkStop_motion arrive_motion doStep_motion)
  show "currentPositionMm (feedBody s) = currentPositionMm s + dirSign d / stepsPerMm s"
    by (simp add: b checkStop_motion arrive_motion doStep_motion)
  have "unmoved s ?a"
    using doStep_unmoved [of s d] by (simp add: unmoved_def)
  then show "unmoved s (feedBody s)"
    unfolding b
    by (meson unmoved_trans arrive_unmoved checkStop_unmoved)
qed

lemma feedLoop_run:
  "feed s = Some (d, tot, k) \<Longrightarrow>
   \<exists>n. feed (feedLoop s) = Some (d, tot, k + int n) \<and>
       stepPulses (feedLoop s) = stepPulses s + n \<and>
       currentPositionMm (feedLoop s) = currentPositionMm s + dirSign d * real n / stepsPerMm s \<and>
       unmoved s (feedLoop s) \<and> \<not> feedContinues (feedLoop s) \<and>
       (k \<le> tot \<longrightarrow> k + int n \<le> tot) \<and> (tot \<le> k \<longrightarrow> n = 0)"
proof (induction s arbitrary: k rule: feedLoop.induct)
  case (1 s)
  show ?case
  proof (cases "feedContinues s")
    case False
    then have "feedLoop s = s" by (subst feedLoop.simps) simp
    with False "1.prems" show ?thesis by (intro exI [of _ 0]) simp
  next
    case True
    then have eq: "feedLoop s = feedLoop (feedBody s)" by (subst feedLoop.simps) simp
    from True "1.prems" have lt: "k < tot" by (simp add: feedContinues_def)
    note b = feedBody_step [OF "1.prems"]
    from "1.IH" [OF True b(1)] obtain n where n:
      "feed (feedLoop (feedBody s)) = Some (d, tot, k + 1 + int n)"
      "stepPulses (feedLoop (feedBody s)) = stepPulses (feedBody s) + n"
      "currentPositionMm (feedLoop (feedBody s)) =
         currentPositionMm (feedBody s) + dirSign d * real n / stepsPerMm (feedBody s)"
      "unmoved (feedBody s) (feedLoop (feedBody s))"
      "\<not> feedContinues (feedLoop (feedBody s))"
      "k + 1 \<le> tot \<longrightarrow> k + 1 + int n \<le> tot"
      by blast
    have spm: "stepsPerMm (feedBody s) = stepsPerMm s"
      using b(4) by (simp add: unmoved_def)
    show ?thesis
    proof (intro exI [of _ "Suc n"] conjI)
      show "feed (feedLoop s) = Some (d, tot, k + int (Suc n))"
        using n(1) by (simp add: eq)
      show "stepPulses (feedLoop s) = stepPulses s + Suc n"
        using n(2) b(2) by (simp add: eq)
      show "currentPositionMm (feedLoop s) =
              currentPositionMm s + dirSign d * real (Suc n) / stepsPerMm s"
        using n(3) b(3) by (simp add: eq spm add_divide_distrib distrib_left)
      show "unmoved s (feedLoop s)"
        using unmoved_trans [OF b(4) n(4)] by (simp add: eq)
      show "\<not> feedContinues (feedLoop s)" using n(5) by (simp add: eq)
      show "k \<le> tot \<longrightarrow> k + int (Suc n) \<le> tot" using n(6) lt by simp
      show "tot \<le> k \<longrightarrow> Suc n = 0" using lt by simp
    qed
  qed
qed


lemma feedDistance_effect:
  fixes mm :: real and d :: int and s :: feeder
  defines "t \<equiv> feedDistance mm d s" and "tot \<equiv> castLong (mm * stepsPerMm s)"
  shows "\<exists>n. stepPulses t = stepPulses s + n \<and>
             currentPositionMm t = currentPositionMm s + dirSign d * (2 * real n) / stepsPerMm s \<and>
             tx t = tx s @ [FEEDING mm, if stopRequested t then OK_STOPPED_EARLY else OK_DONE] \<and>
             \<not> isRunning t \<and> \<not> jogMode t \<and> feed t = None \<and> pinDir t = d \<and>
             stepsPerMm t = stepsPerMm s \<and>
             int n \<le> max 0 tot \<and> (\<not> stopRequested t \<longrightarrow> int n = max 0 tot) \<and>
             currentPositionMm (feedLoop (feedEnter mm d s)) =
               currentPositionMm s + dirSign d * real n / stepsPerMm s"
proof -
  let ?e = "feedEnter mm d s"
  let ?f = "feedLoop ?e"
  have e: "feed ?e = Some (d, tot, 0)" "stepPulses ?e = stepPulses s"
    "currentPositionMm ?e = currentPositionMm s" "stepsPerMm ?e = stepsPerMm s"
    "tx ?e = tx s @ [FEEDING mm]" "\<not> jogMode ?e" "pinDir ?e = d"
    by (simp_all add: feedEnter_def println_def tot_def)
  from feedLoop_run [OF e(1)] obtain n where n:
    "feed ?f = Some (d, tot, int n)"
    "stepPulses ?f = stepPulses ?e + n"
    "currentPositionMm ?f = currentPositionMm ?e + dirSign d * real n / stepsPerMm ?e"
    "unmoved ?e ?f" "\<not> feedContinues ?f"
    "0 \<le> tot \<longrightarrow> int n \<le> tot" "tot \<le> 0 \<longrightarrow> n = 0"
    by auto
  have f: "stepsPerMm ?f = stepsPerMm s" "tx ?f = tx s @ [FEEDING mm]" "\<not> jogMode ?f"
    "pinDir ?f = d"
    using n(4) e by (simp_all add: unmoved_def)
  have g: "stepPulses ?f = stepPulses s + n"
    "currentPositionMm ?f = currentPositionMm s + dirSign d * real n / stepsPerMm s"
    using n(2,3) e(2,3,4) by simp_all
  define u where "u = ?f"
  have u: "feed u = Some (d, tot, int n)" "stepPulses u = stepPulses s + n"
    "currentPositionMm u = currentPositionMm s + dirSign d * real n / stepsPerMm s"
    "stepsPerMm u = stepsPerMm s" "tx u = tx s @ [FEEDING mm]" "\<not> jogMode u" "pinDir u = d"
    "\<not> feedContinues u"
    using n(1,5) g f by (simp_all add: u_def)
  have t: "t = feedExit u" by (simp add: t_def feedDistance_def u_def)
  have stop: "stopRequested t = stopRequested u"
    using u(1) by (simp add: t feedExit_def Let_def println_def)
  have "stepPulses t = stepPulses s + n"
    using u(1,2) by (simp add: t feedExit_def Let_def println_def)
  moreover have "currentPositionMm t =
      currentPositionMm s + dirSign d * (2 * real n) / stepsPerMm s"
    using u(1,3,4)
    by (simp add: t feedExit_def Let_def println_def dirSign_def add_divide_distrib diff_divide_distrib)
  moreover have "tx t = tx s @ [FEEDING mm, if stopRequested t then OK_STOPPED_EARLY else OK_DONE]"
    using u(1,5) by (simp add: t feedExit_def Let_def println_def)
  moreover have "\<not> isRunning t" "\<not> jogMode t" "feed t = None" "pinDir t = d"
    "stepsPerMm t = stepsPerMm s"
    using u(1,4,6,7) by (simp_all add: t feedExit_def Let_def println_def)
  moreover have "int n \<le> max 0 tot" using n(6,7) by (cases "0 \<le> tot") auto
  moreover have "\<not> stopRequested t \<longrightarrow> int n = max 0 tot"
    using u(1,8) n(6,7) stop by (cases "0 \<le> tot") (auto simp: feedContinues_def)
  moreover note g(2)
  ultimately show ?thesis by blast
qed


lemma serialDrain_idle: "rx s = [] \<Longrightarrow> serialDrain l s = s"
  by (subst serialDrain.simps) simp

subsection \<open>The branches of processCommand\<close>

lemma pc_stop:
  "toUpperCase (trim cmd) = ''STOP'' \<Longrightarrow>
   processCommand l cmd s = println OK_STOPPED (stopMotion s)"
  by (simp add: processCommand_def Let_def)

lemma stop_accepted_in_every_state:
  assumes "toUpperCase (trim cmd) = ''STOP''"
  shows "\<not> isRunning (processCommand l cmd s)" "\<not> jogMode (processCommand l cmd s)"
    "stopRequested (processCommand l cmd s)"
    "tx (processCommand l cmd s) = tx s @ [OK_STOPPED]"
    "currentPositionMm (processCommand l cmd s) = currentPositionMm s"
  by (simp_all add: pc_stop [OF assms] println_def stopMotion_def)

lemma pc_busy:
  "isRunning s \<Longrightarrow> toUpperCase (trim cmd) = c # rest \<Longrightarrow> c # rest \<noteq> ''STOP'' \<Longrightarrow>
   c \<noteq> CHR ''?'' \<Longrightarrow> processCommand l cmd s = println ERR_BUSY s"
  by (auto simp add: processCommand_def Let_def)

lemma pc_status:
  "toUpperCase (trim cmd) = CHR ''?'' # rest \<Longrightarrow> processCommand l cmd s = reportStatus s"
  by (simp add: processCommand_def Let_def)

lemma pc_feed:
  "\<not> isRunning s \<Longrightarrow> toUpperCase (trim cmd) = CHR ''F'' # arg \<Longrightarrow> 0 < toFloat l arg \<Longrightarrow>
   processCommand l cmd s = feedDistance (toFloat l arg) DIR_FORWARD s"
  by (simp add: processCommand_def Let_def)

lemma pc_retract:
  "\<not> isRunning s \<Longrightarrow> toUpperCase (trim cmd) = CHR ''R'' # arg \<Longrightarrow> 0 < toFloat l arg \<Longrightarrow>
   processCommand l cmd s = feedDistance (toFloat l arg) DIR_REVERSE s"
  by (simp add: processCommand_def Let_def)

lemma pc_speed:
  "\<not> isRunning s \<Longrightarrow> toUpperCase (trim cmd) = CHR ''S'' # arg \<Longrightarrow> arg \<noteq> ''TOP'' \<Longrightarrow>
   processCommand l cmd s =
     (if 0 < toFloat l arg \<and> toFloat l arg \<le> maxSpeedMmSec s
      then println (OK_SPEED (toFloat l arg)) (updateStepDelay (s\<lparr>targetSpeedMmSec := toFloat l arg\<rparr>))
      else println (ERR_SPEED_RANGE (maxSpeedMmSec s)) s)"
  by (simp add: processCommand_def Let_def updateStepDelay_def)

lemma pc_unknown:
  "\<not> isRunning s \<Longrightarrow> toUpperCase (trim cmd) = c # rest \<Longrightarrow> c \<notin> set ''FRSJHP?L'' \<Longrightarrow>
   processCommand l cmd s = println ERR_UNKNOWN_CMD s"
  by (auto simp add: processCommand_def Let_def)

lemma updateStepDelay_fields:
  "stepDelayUs (updateStepDelay s) = max 100 (castULong (1000000 / (targetSpeedMmSec s * stepsPerMm s)))"
  "targetSpeedMmSec (updateStepDelay s) = targetSpeedMmSec s"
  "tx (updateStepDelay s) = tx s" "isRunning (updateStepDelay s) = isRunning s"
  "currentPositionMm (updateStepDelay s) = currentPositionMm s"
  "stepsPerMm (updateStepDelay s) = stepsPerMm s" "jogMode (updateStepDelay s) = jogMode s"
  "ledState (updateStepDelay s) = ledState s"
  by (simp_all add: updateStepDelay_def Let_def max_def)

subsection \<open>Settings and invariants\<close>

lemma feedDistance_settings:
  "stepDelayUs (feedDistance mm d s) = stepDelayUs s"
  "targetSpeedMmSec (feedDistance mm d s) = targetSpeedMmSec s"
  "maxSpeedMmSec (feedDistance mm d s) = maxSpeedMmSec s"
  "ledState (feedDistance mm d s) = ledState s"
proof -
  let ?e = "feedEnter mm d s"
  have e: "feed ?e = Some (d, castLong (mm * stepsPerMm s), 0)"
    by (simp add: feedEnter_def println_def)
  from feedLoop_run [OF e] have u: "unmoved ?e (feedLoop ?e)" by blast
  have x: "stepDelayUs (feedExit t) = stepDelayUs t \<and> targetSpeedMmSec (feedExit t) = targetSpeedMmSec t
     \<and> maxSpeedMmSec (feedExit t) = maxSpeedMmSec t \<and> ledState (feedExit t) = ledState t" for t
    by (simp add: feedExit_def Let_def println_def split: option.splits prod.splits)
  have y: "stepDelayUs ?e = stepDelayUs s \<and> targetSpeedMmSec ?e = targetSpeedMmSec s
     \<and> maxSpeedMmSec ?e = maxSpeedMmSec s \<and> ledState ?e = ledState s"
    by (simp add: feedEnter_def println_def)
  show "stepDelayUs (feedDistance mm d s) = stepDelayUs s"
    "targetSpeedMmSec (feedDistance mm d s) = targetSpeedMmSec s"
    "maxSpeedMmSec (feedDistance mm d s) = maxSpeedMmSec s"
    "ledState (feedDistance mm d s) = ledState s"
    using u x [of "feedLoop ?e"] y by (simp_all add: feedDistance_def unmoved_def)
qed

lemma feedDistance_idleInv: "100 \<le> stepDelayUs s \<Longrightarrow> idleInv (feedDistance mm d s)"
  using feedDistance_effect [of mm d s]
  by (auto simp: idleInv_def feedDistance_settings)

lemma processCommand_idleInv:
  assumes "idleInv s"
  shows "idleInv (processCommand l cmd s)"
proof -
  have d: "100 \<le> stepDelayUs s" using assms by (simp add: idleInv_def)
  have u: "100 \<le> stepDelayUs (updateStepDelay t)" for t
    by (simp add: updateStepDelay_fields)
  have v: "idleInv (updateStepDelay (s\<lparr>targetSpeedMmSec := x\<rparr>))" for x
    using assms u [of "s\<lparr>targetSpeedMmSec := x\<rparr>"]
    by (simp add: idleInv_def updateStepDelay_fields) (simp add: updateStepDelay_def Let_def)
  have p: "idleInv t \<Longrightarrow> idleInv (println x t)" for x t
    by (simp add: idleInv_def println_def)
  have led: "idleInv (setLED n s)" for n
    using assms by (simp add: idleInv_def setLED_def Let_def)
  show ?thesis
    using assms feedDistance_idleInv [OF d] v p led
    by (auto simp: processCommand_def Let_def stopMotion_def startJog_def reportStatus_def
          idleInv_def println_def split: list.splits)
qed


lemma reachInv_idle: "feed s = None \<Longrightarrow> reachInv s = idleInv s"
  by (simp add: reachInv_def idleInv_def)

lemma drainStep_idleInv: "idleInv s \<Longrightarrow> idleInv (drainStep l s)"
proof -
  assume a: "idleInv s"
  have r: "idleInv (s\<lparr>rx := cs\<rparr>)" for cs using a by (simp add: idleInv_def)
  have b: "idleInv t \<Longrightarrow> idleInv (t\<lparr>inputBuffer := x\<rparr>)" for t x by (simp add: idleInv_def)
  show ?thesis
    using a b r processCommand_idleInv [OF r]
    by (auto simp: drainStep_def Let_def split: list.splits)
qed

lemma reach_reachInv: "reach l s \<Longrightarrow> reachInv s"
proof (induction rule: reach.induct)
  case boot
  show ?case
    using booted_eq by (simp add: reachInv_def booted_def powerOn_def)
next
  case (host s now later)
  then show ?case by (simp add: reachInv_def split: option.splits)
next
  case (drain s)
  then show ?case
    using drainStep_idleInv [of s l] by (simp add: reachInv_idle) (simp add: reachInv_def idleInv_def)
next
  case (jog s)
  then show ?case
    using doStep_unmoved [of s "jogDirection s"]
    by (simp add: reachInv_def unmoved_def doStep_motion)
next
  case (feed_start s c cs f arg)
  then show ?case by (simp add: reachInv_def feedEnter_def println_def)
next
  case (feed_step s)
  from feed_step.hyps(2) obtain d tot k where f: "feed s = Some (d, tot, k)"
    by (auto simp: feedContinues_def split: option.splits)
  from feedBody_step [OF f] feed_step.IH f show ?case
    by (simp add: reachInv_def unmoved_def)
qed

subsection \<open>Serial input during a feed\<close>

lemma checkStop_other:
  "rx s = c # cs \<Longrightarrow> c \<noteq> CHR ''S'' \<Longrightarrow> c \<noteq> CHR ''s'' \<Longrightarrow> checkStop s = s"
  by (simp add: checkStop_def)

lemma readStringUntil_line:
  "t \<notin> set ltxt \<Longrightarrow> readStringUntil t (ltxt @ t # rest) = (ltxt, rest)"
  by (induction ltxt) (auto simp: readStringUntil_def)

lemma checkStop_discard:
  assumes "rx s = ltxt @ newline # rest" "newline \<notin> set ltxt" "ltxt \<noteq> []"
    "hd ltxt = CHR ''S'' \<or> hd ltxt = CHR ''s''" "toUpperCase (trim ltxt) \<noteq> ''STOP''"
  shows "checkStop s = s\<lparr>rx := rest\<rparr>"
proof -
  from assms(3) obtain c cs where ltxt: "ltxt = c # cs" by (cases ltxt) auto
  have r: "rx s = c # (cs @ newline # rest)" using assms(1) ltxt by simp
  have "readStringUntil newline (rx s) = (ltxt, rest)"
    unfolding assms(1) by (rule readStringUntil_line [OF assms(2)])
  then show ?thesis
    using assms(4,5) ltxt r by (simp add: checkStop_def)
qed


lemma feedBody_blocked:
  assumes "feed s = Some (d, tot, k)" "rx s = c # cs" "c \<noteq> CHR ''S''" "c \<noteq> CHR ''s''"
  shows "rx (feedBody s) = rx s @ concat (take 1 (incoming s))"
    and "incoming (feedBody s) = drop 1 (incoming s)"
    and "stopRequested (feedBody s) = stopRequested s"
proof -
  let ?a = "arrive ((doStep d s)\<lparr>feed := Some (d, tot, k + 1)\<rparr>)"
  have a: "rx ?a = rx s @ concat (take 1 (incoming s))" "incoming ?a = drop 1 (incoming s)"
    "stopRequested ?a = stopRequested s"
    by (simp_all add: arrive_def doStep_motion split: list.splits)
  have "rx ?a = c # (cs @ concat (take 1 (incoming s)))"
    using a(1) assms(2) by simp
  then have "checkStop ?a = ?a"
    using assms(3,4) by (rule checkStop_other)
  then have b: "feedBody s = ?a" using assms(1) by (simp add: feedBody_def)
  show "rx (feedBody s) = rx s @ concat (take 1 (incoming s))"
    "incoming (feedBody s) = drop 1 (incoming s)"
    "stopRequested (feedBody s) = stopRequested s"
    unfolding b using a by simp_all
qed

lemma feedLoop_blocked:
  "feed s = Some (d, tot, k) \<Longrightarrow> rx s = c # cs \<Longrightarrow> c \<noteq> CHR ''S'' \<Longrightarrow> c \<noteq> CHR ''s'' \<Longrightarrow>
   \<exists>j. rx (feedLoop s) = rx s @ concat (take j (incoming s)) \<and>
       incoming (feedLoop s) = drop j (incoming s) \<and>
       stopRequested (feedLoop s) = stopRequested s"
proof (induction s arbitrary: k cs rule: feedLoop.induct)
  case (1 s)
  show ?case
  proof (cases "feedContinues s")
    case False
    then have "feedLoop s = s" by (subst feedLoop.simps) simp
    then show ?thesis by (intro exI [of _ 0]) simp
  next
    case True
    then have eq: "feedLoop s = feedLoop (feedBody s)" by (subst feedLoop.simps) simp
    note b = feedBody_blocked [OF "1.prems"]
    have f: "feed (feedBody s) = Some (d, tot, k + 1)"
      by (rule feedBody_step(1) [OF "1.prems"(1)])
    have r: "rx (feedBody s) = c # (cs @ concat (take 1 (incoming s)))"
      using b(1) "1.prems"(2) by simp
    from "1.IH" [OF True f r "1.prems"(3,4)] obtain j where j:
      "rx (feedLoop (feedBody s)) = rx (feedBody s) @ concat (take j (incoming (feedBody s)))"
      "incoming (feedLoop (feedBody s)) = drop j (incoming (feedBody s))"
      "stopRequested (feedLoop (feedBody s)) = stopRequested (feedBody s)"
      by blast
    have "take (Suc j) (incoming s) = take 1 (incoming s) @ take j (drop 1 (incoming s))"
      using take_add [of 1 j "incoming s"] by simp
    then have "rx (feedLoop s) = rx s @ concat (take (Suc j) (incoming s))"
      using j(1) b(1,2) by (simp add: eq)
    moreover have "incoming (feedLoop s) = drop (Suc j) (incoming s)"
      using j(2) b(2) by (simp add: eq)
    moreover have "stopRequested (feedLoop s) = stopRequested s"
      using j(3) b(3) by (simp add: eq)
    ultimately show ?thesis by blast
  qed
qed

lemma feedDistance_blocked:
  assumes "rx s = c # cs" "c \<noteq> CHR ''S''" "c \<noteq> CHR ''s''"
  shows "\<exists>j. rx (feedDistance mm d s) = rx s @ concat (take j (incoming s))"
    and "tx (feedDistance mm d s) = tx s @ [FEEDING mm, OK_DONE]"
proof -
  let ?e = "feedEnter mm d s"
  have e: "feed ?e = Some (d, castLong (mm * stepsPerMm s), 0)" "rx ?e = c # cs"
    "incoming ?e = incoming s" "\<not> stopRequested ?e"
    using assms(1) by (simp_all add: feedEnter_def println_def)
  from feedLoop_blocked [OF e(1,2) assms(2,3)] obtain j where j:
    "rx (feedLoop ?e) = rx ?e @ concat (take j (incoming ?e))"
    "stopRequested (feedLoop ?e) = stopRequested ?e"
    by blast
  have x: "rx (feedExit t) = rx t \<and> stopRequested (feedExit t) = stopRequested t" for t
    by (simp add: feedExit_def Let_def println_def split: option.splits prod.splits)
  have "rx (feedDistance mm d s) = rx s @ concat (take j (incoming s))"
    using j(1) e(2,3) assms(1) x by (simp add: feedDistance_def)
  then show "\<exists>j. rx (feedDistance mm d s) = rx s @ concat (take j (incoming s))" ..
  have "\<not> stopRequested (feedDistance mm d s)"
    using j(2) e(4) x by (simp add: feedDistance_def)
  then show "tx (feedDistance mm d s) = tx s @ [FEEDING mm, OK_DONE]"
    using feedDistance_effect [of mm d s] by auto
qed


lemma drainStep_feed_blocked:
  assumes "rx s = nl # c # cs" "nl = newline \<or> nl = carriageReturn"
    "c \<noteq> CHR ''S''" "c \<noteq> CHR ''s''" "\<not> isRunning s"
    "toUpperCase (trim (inputBuffer s)) = f # arg" "f = CHR ''F'' \<or> f = CHR ''R''"
    "0 < toFloat l arg"
  shows "\<exists>j. rx (drainStep l s) = c # cs @ concat (take j (incoming s))"
    and "tx (drainStep l s) = tx s @ [FEEDING (toFloat l arg), OK_DONE]"
proof -
  define s1 where "s1 = s\<lparr>rx := c # cs\<rparr>"
  define d where "d = (if f = CHR ''F'' then DIR_FORWARD else DIR_REVERSE)"
  have ne: "inputBuffer s \<noteq> []"
    using assms(6) by (auto simp: trim_def toUpperCase_def)
  have s1: "rx s1 = c # cs" "\<not> isRunning s1" "incoming s1 = incoming s" "tx s1 = tx s"
    "inputBuffer s1 = inputBuffer s"
    using assms(5) by (simp_all add: s1_def)
  have p: "processCommand l (inputBuffer s) s1 = feedDistance (toFloat l arg) d s1"
    using assms(7,8) pc_feed [OF s1(2), of "inputBuffer s" arg l]
      pc_retract [OF s1(2), of "inputBuffer s" arg l] assms(6)
    by (auto simp: d_def)
  have ds: "drainStep l s = (feedDistance (toFloat l arg) d s1)\<lparr>inputBuffer := []\<rparr>"
    using assms(1,2) ne p by (auto simp: drainStep_def Let_def s1_def)
  from feedDistance_blocked [OF s1(1) assms(3,4), of "toFloat l arg" d]
  show "\<exists>j. rx (drainStep l s) = c # cs @ concat (take j (incoming s))"
    and "tx (drainStep l s) = tx s @ [FEEDING (toFloat l arg), OK_DONE]"
    by (simp_all add: ds s1)
qed

subsection \<open>Examples evaluated\<close>

text \<open>\<open>F1\<close> after power-up, nothing else received: 17 steps, answer \<open>OK DONE\<close>.\<close>

lemma F1_after_boot:
  "\<not> stopRequested (processCommand decimalLib ''F1'' booted)"
  "stepPulses (processCommand decimalLib ''F1'' booted) = 17"
  "currentPositionMm (processCommand decimalLib ''F1'' booted) = 34 / 17.62"
  "pinDir (processCommand decimalLib ''F1'' booted) = DIR_FORWARD"
  "tx (processCommand decimalLib ''F1'' booted) =
     [TUBE_FEEDER_READY, COMMANDS_BANNER, FEEDING 1, OK_DONE]"
  by (simp_all add: eval_defs feedLoop.simps)

lemma upper_trim_examples:
  "toUpperCase (trim ''F1'') = CHR ''F'' # ''1''"
  "toUpperCase (trim ''R1'') = CHR ''R'' # ''1''"
  "toUpperCase (trim '' f10 '') = CHR ''F'' # ''10''"
  "toUpperCase (trim ''s20'') = CHR ''S'' # ''20''"
  "toUpperCase (trim ''x'') = CHR ''X'' # []"
  by (simp_all add: toUpperCase_def trim_def toUpper_def isSpace_def)

section \<open>The claims\<close>




text \<open>
  C2. \<open>STOP\<close> received during the first step interval of \<open>F1\<close>: the feed ends after one
  step, the controller is idle and answers \<open>OK STOPPED_EARLY\<close>; the position is then
  \<open>2 / 17.62\<close> mm, the distance of two steps, for the one step that was taken. (That
  \<open>STOP\<close> at the command loop is accepted in every state is lemma
  \<open>stop_accepted_in_every_state\<close>.)
\<close>

theorem stop_during_feed_counts_the_step_twice:
  "stepPulses (loop decimalLib (booted\<lparr>rx := ''F1\<newline>'', incoming := [''STOP\<newline>'']\<rparr>)) = 1 \<and>
   currentPositionMm (loop decimalLib (booted\<lparr>rx := ''F1\<newline>'', incoming := [''STOP\<newline>'']\<rparr>))
     = 2 / 17.62 \<and>
   tx (loop decimalLib (booted\<lparr>rx := ''F1\<newline>'', incoming := [''STOP\<newline>'']\<rparr>))
     = [TUBE_FEEDER_READY, COMMANDS_BANNER, FEEDING 1, OK_STOPPED_EARLY] \<and>
   \<not> isRunning (loop decimalLib (booted\<lparr>rx := ''F1\<newline>'', incoming := [''STOP\<newline>'']\<rparr>)) \<and>
   \<not> jogMode (loop decimalLib (booted\<lparr>rx := ''F1\<newline>'', incoming := [''STOP\<newline>'']\<rparr>)) \<and>
   currentPositionMm (loop decimalLib (booted\<lparr>rx := ''F1\<newline>'', incoming := [''STOP\<newline>'']\<rparr>))
     \<noteq> currentPositionMm booted
         + real (stepPulses (loop decimalLib (booted\<lparr>rx := ''F1\<newline>'', incoming := [''STOP\<newline>'']\<rparr>)))
             / stepsPerMm booted"
  by (simp add: eval_defs serialDrain.simps feedLoop.simps)

text \<open>
  C3, as stated. A second \<open>F1\<close> that reaches the controller while the first \<open>F1\<close> is
  feeding is in the receive buffer during the feed, is not answered with \<open>ERR BUSY\<close> and
  is not without effect: it stays in the buffer until the feed has ended and is then run
  as a feed of its own, 34 steps in all.
\<close>

theorem second_feed_during_feed_is_not_rejected:
  "Feeding (feedBody (feedEnter 1 DIR_FORWARD
      (booted\<lparr>inputBuffer := ''F1'', incoming := [''F1\<newline>'']\<rparr>))) \<and>
   rx (feedBody (feedEnter 1 DIR_FORWARD
      (booted\<lparr>inputBuffer := ''F1'', incoming := [''F1\<newline>'']\<rparr>))) = ''F1\<newline>'' \<and>
   tx (loop decimalLib (booted\<lparr>rx := ''F1\<newline>'', incoming := [''F1\<newline>'']\<rparr>))
     = [TUBE_FEEDER_READY, COMMANDS_BANNER, FEEDING 1, OK_DONE, FEEDING 1, OK_DONE] \<and>
   stepPulses (loop decimalLib (booted\<lparr>rx := ''F1\<newline>'', incoming := [''F1\<newline>'']\<rparr>)) = 34"
  by (simp add: eval_defs Feeding_def serialDrain.simps feedLoop.simps)

text \<open>
  C3, amended. For every command line that \<open>processCommand\<close> receives while
  \<open>isRunning\<close> is set (at the command loop this is the jogging state; a feed does not
  return to the command loop before it has ended), a motion command \<open>F\<close>, \<open>R\<close>, \<open>J\<close> is
  answered with \<open>ERR BUSY\<close> and changes nothing else, while \<open>?\<close> is answered with the
  status and \<open>STOP\<close> with \<open>OK STOPPED\<close>.
\<close>

theorem busy_guard:
  assumes "isRunning s" and "toUpperCase (trim cmd) = c # rest"
  shows "(c = CHR ''F'' \<or> c = CHR ''R'' \<or> c = CHR ''J'' \<longrightarrow>
            processCommand l cmd s = println ERR_BUSY s) \<and>
         (c = CHR ''?'' \<longrightarrow> processCommand l cmd s = reportStatus s) \<and>
         (c # rest = ''STOP'' \<longrightarrow> processCommand l cmd s = println OK_STOPPED (stopMotion s)) \<and>
         (reach l r \<and> \<not> Feeding r \<longrightarrow> isRunning r = Jogging r)"
proof -
  have "isRunning r = Jogging r" if "reach l r" "\<not> Feeding r"
    using reach_reachInv [OF that(1)] that(2)
    by (cases "feed r") (simp_all add: reachInv_def Feeding_def Jogging_def)
  then show ?thesis
    using assms by (auto simp: pc_busy pc_status pc_stop)
qed

theorem busy_guard_witness:
  "isRunning (startJog DIR_FORWARD booted) \<and>
   toUpperCase (trim '' f10 '') = CHR ''F'' # ''10'' \<and>
   processCommand decimalLib '' f10 '' (startJog DIR_FORWARD booted)
     = println ERR_BUSY (startJog DIR_FORWARD booted) \<and>
   reach decimalLib booted \<and> \<not> Feeding booted \<and> isRunning booted = Jogging booted"
proof -
  have h: "isRunning (startJog DIR_FORWARD booted)"
    "toUpperCase (trim '' f10 '') = CHR ''F'' # ''10''"
    by (simp_all add: upper_trim_examples) (simp add: startJog_def println_def)
  have r: "reach decimalLib booted" unfolding booted_def by (rule reach.boot)
  have f: "\<not> Feeding booted" by (simp add: Feeding_def booted_eq powerOn_def)
  from busy_guard [OF h, of decimalLib booted] r f
  have "processCommand decimalLib '' f10 '' (startJog DIR_FORWARD booted)
          = println ERR_BUSY (startJog DIR_FORWARD booted)"
    "isRunning booted = Jogging booted"
    by blast+
  then show ?thesis using h r f by blast
qed

text \<open>
  C4, as stated. \<open>HELLO\<close> is none of the defined commands; the interpreter does not
  answer \<open>ERR UNKNOWN_CMD\<close>, it answers nothing and changes nothing.
\<close>

theorem hello_gets_no_answer:
  "processCommand decimalLib ''HELLO'' booted = booted \<and>
   ERR_UNKNOWN_CMD \<notin> set (tx (processCommand decimalLib ''HELLO'' booted))"
  by (simp add: eval_defs)

text \<open>
  C4, amended. For every input line, processed while no move is active, whose first
  character after trimming and upper-casing is none of \<open>F\<close>, \<open>R\<close>, \<open>S\<close>, \<open>J\<close>, \<open>H\<close>, \<open>P\<close>,
  \<open>?\<close>, \<open>L\<close>, the interpreter responds with \<open>ERR UNKNOWN_CMD\<close> and changes nothing else.
\<close>

theorem unknown_first_character:
  "\<not> isRunning s \<Longrightarrow> toUpperCase (trim cmd) = c # rest \<Longrightarrow> c \<notin> set ''FRSJHP?L'' \<Longrightarrow>
   processCommand l cmd s = println ERR_UNKNOWN_CMD s"
  by (rule pc_unknown)

theorem unknown_first_character_witness:
  "\<not> isRunning booted \<and> toUpperCase (trim ''x'') = CHR ''X'' # [] \<and>
   CHR ''X'' \<notin> set ''FRSJHP?L'' \<and>
   processCommand decimalLib ''x'' booted = println ERR_UNKNOWN_CMD booted"
proof -
  have h: "\<not> isRunning booted" "toUpperCase (trim ''x'') = CHR ''X'' # []"
    "CHR ''X'' \<notin> set ''FRSJHP?L''"
    by (simp_all add: upper_trim_examples) (simp add: booted_eq powerOn_def)
  show ?thesis using unknown_first_character [OF h, of decimalLib] h by simp
qed

text \<open>
  C5. \<open>F<mm>\<close> followed by \<open>R<mm>\<close> with the same \<open>mm > 0\<close>, both run to completion
  without interruption, returns the position to its value before the pair.
\<close>

theorem feed_then_retract_returns:
  assumes "\<not> isRunning s" and "stepsPerMm s \<noteq> 0"
    and "toUpperCase (trim c1) = CHR ''F'' # a1" and "toUpperCase (trim c2) = CHR ''R'' # a2"
    and "toFloat l a1 = mm" and "toFloat l a2 = mm" and "0 < mm"
    and "\<not> stopRequested (processCommand l c1 s)"
    and "\<not> stopRequested (processCommand l c2 (processCommand l c1 s))"
  shows "currentPositionMm (processCommand l c2 (processCommand l c1 s)) = currentPositionMm s"
proof -
  define t where "t = feedDistance mm DIR_FORWARD s"
  define u where "u = feedDistance mm DIR_REVERSE t"
  have p1: "processCommand l c1 s = t"
    using pc_feed [OF assms(1,3)] assms(5,7) by (simp add: t_def)
  from feedDistance_effect [of mm DIR_FORWARD s] obtain n where n:
    "currentPositionMm t = currentPositionMm s + dirSign DIR_FORWARD * (2 * real n) / stepsPerMm s"
    "\<not> isRunning t" "stepsPerMm t = stepsPerMm s"
    "\<not> stopRequested t \<longrightarrow> int n = max 0 (castLong (mm * stepsPerMm s))"
    unfolding t_def by blast
  have p2: "processCommand l c2 t = u"
    using pc_retract [OF n(2) assms(4)] assms(6,7) by (simp add: u_def)
  from feedDistance_effect [of mm DIR_REVERSE t] obtain m where m:
    "currentPositionMm u = currentPositionMm t + dirSign DIR_REVERSE * (2 * real m) / stepsPerMm t"
    "\<not> stopRequested u \<longrightarrow> int m = max 0 (castLong (mm * stepsPerMm t))"
    unfolding u_def by blast
  have "int n = int m"
    using n(4) m(2) assms(8,9) by (simp add: p1 p2 n(3))
  then have "m = n" by simp
  then have "currentPositionMm u = currentPositionMm s"
    using n(1) m(1) by (simp add: n(3) dirSign_def dir_defs)
  then show ?thesis by (simp add: p1 p2)
qed

theorem feed_then_retract_returns_witness:
  "\<not> isRunning booted \<and> stepsPerMm booted \<noteq> 0 \<and> toFloat decimalLib ''1'' = 1 \<and>
   \<not> stopRequested (processCommand decimalLib ''F1'' booted) \<and>
   \<not> stopRequested (processCommand decimalLib ''R1'' (processCommand decimalLib ''F1'' booted)) \<and>
   currentPositionMm (processCommand decimalLib ''F1'' booted) = 34 / 17.62 \<and>
   currentPositionMm (processCommand decimalLib ''R1'' (processCommand decimalLib ''F1'' booted))
     = currentPositionMm booted"
proof -
  have h: "\<not> isRunning booted" "stepsPerMm booted \<noteq> 0"
    "toUpperCase (trim ''F1'') = CHR ''F'' # ''1''"
    "toUpperCase (trim ''R1'') = CHR ''R'' # ''1''"
    "toFloat decimalLib ''1'' = 1" "toFloat decimalLib ''1'' = 1" "(0::real) < 1"
    "\<not> stopRequested (processCommand decimalLib ''F1'' booted)"
    by (simp_all add: F1_after_boot upper_trim_examples)
      (simp_all add: booted_eq powerOn_def decimalLib_def decimalFloat_def digitValue_def)
  have r: "\<not> stopRequested (processCommand decimalLib ''R1'' (processCommand decimalLib ''F1'' booted))"
    by (simp add: eval_defs feedLoop.simps)
  show ?thesis
    using feed_then_retract_returns [OF h r] h r by (simp add: F1_after_boot)
qed

text \<open>
  C6, as stated. \<open>S20\<close> while the controller is jogging: 20 lies in the speed range, but
  the answer is \<open>ERR BUSY\<close> and the speed stays at 10.
\<close>

theorem speed_command_while_jogging_is_busy:
  "tx (processCommand decimalLib ''S20'' (processCommand decimalLib ''J+'' booted))
     = [TUBE_FEEDER_READY, COMMANDS_BANNER, JOGGING_FORWARD, ERR_BUSY] \<and>
   targetSpeedMmSec (processCommand decimalLib ''S20'' (processCommand decimalLib ''J+'' booted)) = 10 \<and>
   toFloat decimalLib ''20'' = 20 \<and> maxSpeedMmSec booted = 50"
  by (simp add: eval_defs)

text \<open>
  C6, amended. For every \<open>S<v>\<close> command processed while no move is active: if
  \<open>0 < v \<le> maxSpeed\<close> the speed setting becomes \<open>v\<close>, the response is \<open>OK SPEED=<v>\<close>, and a
  status query that follows reports \<open>v\<close>; otherwise the response is
  \<open>ERR SPEED_RANGE 0-<max>\<close> and nothing else changes.
\<close>

theorem speed_command_when_idle:
  assumes "\<not> isRunning s" and "toUpperCase (trim cmd) = CHR ''S'' # arg" and "arg \<noteq> ''TOP''"
    and "v = toFloat l arg"
  shows "(0 < v \<and> v \<le> maxSpeedMmSec s \<longrightarrow>
            targetSpeedMmSec (processCommand l cmd s) = v \<and>
            tx (processCommand l cmd s) = tx s @ [OK_SPEED v] \<and>
            tx (processCommand l ''?'' (processCommand l cmd s)) =
              tx s @ [OK_SPEED v,
                      STATUS (currentPositionMm s) v (stepsPerMm s) False (jogMode s) (ledState s)])
         \<and> (\<not> (0 < v \<and> v \<le> maxSpeedMmSec s) \<longrightarrow>
              processCommand l cmd s = println (ERR_SPEED_RANGE (maxSpeedMmSec s)) s)"
proof -
  have q: "toUpperCase (trim ''?'') = ''?''"
    by (simp add: toUpperCase_def trim_def toUpper_def isSpace_def)
  show ?thesis
    using assms(1,4)
    by (simp add: pc_speed [OF assms(1,2,3)] pc_status [OF q] reportStatus_def println_def
          updateStepDelay_fields)
qed

theorem speed_command_when_idle_witness:
  "\<not> isRunning booted \<and> toUpperCase (trim ''s20'') = CHR ''S'' # ''20'' \<and> ''20'' \<noteq> ''TOP'' \<and>
   20 = toFloat decimalLib ''20'' \<and> (0::real) < 20 \<and> 20 \<le> maxSpeedMmSec booted \<and>
   targetSpeedMmSec (processCommand decimalLib ''s20'' booted) = 20 \<and>
   tx (processCommand decimalLib ''s20'' booted) = tx booted @ [OK_SPEED 20]"
proof -
  have h: "\<not> isRunning booted" "toUpperCase (trim ''s20'') = CHR ''S'' # ''20''"
    "''20'' \<noteq> ''TOP''" "20 = toFloat decimalLib ''20''"
    by (simp_all add: upper_trim_examples)
      (simp_all add: booted_eq powerOn_def decimalLib_def decimalFloat_def digitValue_def)
  have m: "20 \<le> maxSpeedMmSec booted" by (simp add: booted_eq powerOn_def)
  show ?thesis
    using speed_command_when_idle [OF h] h m by simp
qed






text \<open>
  C9. A feed or retract that completes \<open>n\<close> steps (finished or stopped early) moves the
  position by twice the distance of \<open>n\<close> steps, in the direction of the move: once step by
  step in \<open>doStep\<close>, once more after the loop. The steps are counted by the pulses on the
  step pin. A jog step, taken by \<open>loop\<close> when nothing is received, moves the position by
  the distance of one step.
\<close>

theorem feed_position_counts_steps_twice:
  assumes "stepsPerMm s \<noteq> 0"
  shows "currentPositionMm (feedDistance mm d s) =
           currentPositionMm s
             + dirSign d * (2 * real (stepPulses (feedDistance mm d s) - stepPulses s))
                 / stepsPerMm s
         \<and> stepPulses s \<le> stepPulses (feedDistance mm d s)
         \<and> (jogMode s \<and> \<not> stopRequested s \<and> rx s = [] \<longrightarrow>
              stepPulses (loop l s) = stepPulses s + 1 \<and>
              currentPositionMm (loop l s) =
                currentPositionMm s + dirSign (jogDirection s) * 1 / stepsPerMm s)"
proof -
  from feedDistance_effect [of mm d s] obtain n where
    "stepPulses (feedDistance mm d s) = stepPulses s + n"
    "currentPositionMm (feedDistance mm d s) =
       currentPositionMm s + dirSign d * (2 * real n) / stepsPerMm s"
    by blast
  then have "currentPositionMm (feedDistance mm d s) =
     currentPositionMm s
       + dirSign d * (2 * real (stepPulses (feedDistance mm d s) - stepPulses s)) / stepsPerMm s"
    and "stepPulses s \<le> stepPulses (feedDistance mm d s)"
    by simp_all
  moreover have "jogMode s \<and> \<not> stopRequested s \<and> rx s = [] \<longrightarrow>
        stepPulses (loop l s) = stepPulses s + 1 \<and>
        currentPositionMm (loop l s) =
          currentPositionMm s + dirSign (jogDirection s) * 1 / stepsPerMm s"
    by (simp add: loop_def serialDrain_idle doStep_motion)
  ultimately show ?thesis by blast
qed

theorem feed_position_counts_steps_twice_witness:
  "stepsPerMm booted \<noteq> 0 \<and> stepsPerMm (startJog DIR_REVERSE booted) \<noteq> 0 \<and>
   jogMode (startJog DIR_REVERSE booted) \<and> \<not> stopRequested (startJog DIR_REVERSE booted)
   \<and> rx (startJog DIR_REVERSE booted) = []
   \<and> stepPulses (loop decimalLib (startJog DIR_REVERSE booted)) = 1
   \<and> currentPositionMm (loop decimalLib (startJog DIR_REVERSE booted)) = - (1 / 17.62)
   \<and> stepPulses (feedDistance 1 DIR_FORWARD booted) = 17
   \<and> currentPositionMm (feedDistance 1 DIR_FORWARD booted) = 34 / 17.62"
proof -
  have p: "stepPulses (feedDistance 1 DIR_FORWARD booted) = 17"
    by (simp add: eval_defs feedLoop.simps)
  have z: "stepsPerMm booted \<noteq> 0" "stepsPerMm (startJog DIR_REVERSE booted) \<noteq> 0"
    by (simp_all add: eval_defs)
  have j: "jogMode (startJog DIR_REVERSE booted) \<and> \<not> stopRequested (startJog DIR_REVERSE booted)
           \<and> rx (startJog DIR_REVERSE booted) = []"
    by (simp add: eval_defs)
  show ?thesis
    using feed_position_counts_steps_twice [OF z(1), of 1 DIR_FORWARD decimalLib]
      feed_position_counts_steps_twice [OF z(2), of 1 DIR_FORWARD decimalLib]
      p j z
    by (simp add: eval_defs)
qed

text \<open>
  C10. In the feed loop, a line in the receive buffer that starts with \<open>S\<close> or \<open>s\<close> and is
  not \<open>STOP\<close> is removed up to and including its newline, with no response and no other
  change of the state. A buffer that starts with another byte is left as it is: the feed
  is then not interrupted, it answers \<open>OK DONE\<close>, and the bytes are still in the buffer,
  followed by what arrived meanwhile, when the feed has ended. They are then at the head
  of the buffer when the receive loop, whose pass ran the \<open>F\<close> or \<open>R\<close> command, goes on.
\<close>

theorem feed_discards_S_lines:
  "(rx s = ltxt @ newline # rest \<and> newline \<notin> set ltxt \<and> ltxt \<noteq> [] \<and>
    (hd ltxt = CHR ''S'' \<or> hd ltxt = CHR ''s'') \<and> toUpperCase (trim ltxt) \<noteq> ''STOP''
      \<longrightarrow> checkStop s = s\<lparr>rx := rest\<rparr>)
   \<and> (rx s = c # cs \<and> c \<noteq> CHR ''S'' \<and> c \<noteq> CHR ''s''
      \<longrightarrow> checkStop s = s \<and>
          (\<exists>j. rx (feedDistance mm d s) = rx s @ concat (take j (incoming s))) \<and>
          tx (feedDistance mm d s) = tx s @ [FEEDING mm, OK_DONE])
   \<and> (rx s = nl # c # cs \<and> (nl = newline \<or> nl = carriageReturn) \<and>
       c \<noteq> CHR ''S'' \<and> c \<noteq> CHR ''s'' \<and> \<not> isRunning s \<and>
       toUpperCase (trim (inputBuffer s)) = f # arg \<and> (f = CHR ''F'' \<or> f = CHR ''R'') \<and>
       0 < toFloat l arg
      \<longrightarrow> (\<exists>j. rx (drainStep l s) = c # cs @ concat (take j (incoming s))) \<and>
          tx (drainStep l s) = tx s @ [FEEDING (toFloat l arg), OK_DONE])"
  using checkStop_discard [of s ltxt rest] checkStop_other [of s c cs]
    feedDistance_blocked [of s c cs mm d] drainStep_feed_blocked [of s nl c cs f arg l]
  by blast

theorem feed_discards_S_lines_witness:
  "rx (booted\<lparr>rx := ''S20\<newline>POS\<newline>''\<rparr>) = ''S20'' @ newline # ''POS\<newline>'' \<and>
   newline \<notin> set ''S20'' \<and> toUpperCase (trim ''S20'') \<noteq> ''STOP'' \<and>
   checkStop (booted\<lparr>rx := ''S20\<newline>POS\<newline>''\<rparr>) = booted\<lparr>rx := ''POS\<newline>''\<rparr> \<and>
   checkStop (booted\<lparr>rx := ''POS\<newline>''\<rparr>) = booted\<lparr>rx := ''POS\<newline>''\<rparr> \<and>
   tx (feedDistance 1 DIR_FORWARD (booted\<lparr>rx := ''POS\<newline>''\<rparr>))
     = tx booted @ [FEEDING 1, OK_DONE] \<and>
   toUpperCase (trim ''F1'') = CHR ''F'' # ''1'' \<and> 0 < toFloat decimalLib ''1'' \<and>
   tx (drainStep decimalLib (booted\<lparr>rx := ''\<newline>POS\<newline>'', inputBuffer := ''F1''\<rparr>))
     = tx booted @ [FEEDING 1, OK_DONE] \<and>
   tx (loop decimalLib (booted\<lparr>rx := ''F1\<newline>'', incoming := [''S20\<newline>'', ''POS\<newline>'']\<rparr>))
     = [TUBE_FEEDER_READY, COMMANDS_BANNER, FEEDING 1, OK_DONE, POS (34 / 17.62)] \<and>
   targetSpeedMmSec
     (loop decimalLib (booted\<lparr>rx := ''F1\<newline>'', incoming := [''S20\<newline>'', ''POS\<newline>'']\<rparr>)) = 10"
proof -
  have a: "rx (booted\<lparr>rx := ''S20\<newline>POS\<newline>''\<rparr>) = ''S20'' @ newline # ''POS\<newline>'' \<and>
      newline \<notin> set ''S20'' \<and> ''S20'' \<noteq> [] \<and>
      (hd ''S20'' = CHR ''S'' \<or> hd ''S20'' = CHR ''s'') \<and> toUpperCase (trim ''S20'') \<noteq> ''STOP''"
    by (simp add: newline_def toUpperCase_def trim_def toUpper_def isSpace_def)
  have b: "rx (booted\<lparr>rx := ''POS\<newline>''\<rparr>) = CHR ''P'' # ''OS\<newline>'' \<and>
      CHR ''P'' \<noteq> CHR ''S'' \<and> CHR ''P'' \<noteq> CHR ''s''"
    by simp
  have c: "rx (booted\<lparr>rx := ''\<newline>POS\<newline>'', inputBuffer := ''F1''\<rparr>) = newline # CHR ''P'' # ''OS\<newline>'' \<and>
      (newline = newline \<or> newline = carriageReturn) \<and>
      CHR ''P'' \<noteq> CHR ''S'' \<and> CHR ''P'' \<noteq> CHR ''s'' \<and>
      \<not> isRunning (booted\<lparr>rx := ''\<newline>POS\<newline>'', inputBuffer := ''F1''\<rparr>) \<and>
      toUpperCase (trim (inputBuffer (booted\<lparr>rx := ''\<newline>POS\<newline>'', inputBuffer := ''F1''\<rparr>)))
        = CHR ''F'' # ''1'' \<and>
      (CHR ''F'' = CHR ''F'' \<or> CHR ''F'' = CHR ''R'') \<and> 0 < toFloat decimalLib ''1''"
    by (simp add: upper_trim_examples)
      (simp add: newline_def booted_eq powerOn_def decimalLib_def decimalFloat_def digitValue_def)
  have e: "tx (loop decimalLib (booted\<lparr>rx := ''F1\<newline>'', incoming := [''S20\<newline>'', ''POS\<newline>'']\<rparr>))
       = [TUBE_FEEDER_READY, COMMANDS_BANNER, FEEDING 1, OK_DONE, POS (34 / 17.62)] \<and>
     targetSpeedMmSec
       (loop decimalLib (booted\<lparr>rx := ''F1\<newline>'', incoming := [''S20\<newline>'', ''POS\<newline>'']\<rparr>)) = 10"
    by (simp add: eval_defs serialDrain.simps feedLoop.simps)
  have one: "toFloat decimalLib ''1'' = 1"
    by (simp add: decimalLib_def decimalFloat_def digitValue_def)
  from feed_discards_S_lines
        [of "booted\<lparr>rx := ''S20\<newline>POS\<newline>''\<rparr>" "''S20''" "''POS\<newline>''" "CHR ''P''" "''OS\<newline>''"
            1 DIR_FORWARD newline "CHR ''F''" "''1''" decimalLib] a
  have r1: "checkStop (booted\<lparr>rx := ''S20\<newline>POS\<newline>''\<rparr>) = booted\<lparr>rx := ''S20\<newline>POS\<newline>'', rx := ''POS\<newline>''\<rparr>"
    by blast
  from feed_discards_S_lines
        [of "booted\<lparr>rx := ''POS\<newline>''\<rparr>" "''S20''" "''POS\<newline>''" "CHR ''P''" "''OS\<newline>''"
            1 DIR_FORWARD newline "CHR ''F''" "''1''" decimalLib] b
  have r2: "checkStop (booted\<lparr>rx := ''POS\<newline>''\<rparr>) = booted\<lparr>rx := ''POS\<newline>''\<rparr>"
    "tx (feedDistance 1 DIR_FORWARD (booted\<lparr>rx := ''POS\<newline>''\<rparr>))
       = tx (booted\<lparr>rx := ''POS\<newline>''\<rparr>) @ [FEEDING 1, OK_DONE]"
    by blast+
  from feed_discards_S_lines
        [of "booted\<lparr>rx := ''\<newline>POS\<newline>'', inputBuffer := ''F1''\<rparr>" "''S20''" "''POS\<newline>''"
            "CHR ''P''" "''OS\<newline>''" 1 DIR_FORWARD newline "CHR ''F''" "''1''" decimalLib] c
  have r3: "tx (drainStep decimalLib (booted\<lparr>rx := ''\<newline>POS\<newline>'', inputBuffer := ''F1''\<rparr>))
       = tx (booted\<lparr>rx := ''\<newline>POS\<newline>'', inputBuffer := ''F1''\<rparr>)
           @ [FEEDING (toFloat decimalLib ''1''), OK_DONE]"
    by blast
  show ?thesis
    using a c e r1 r2 r3 by (simp add: one)
qed

end
